theory Spec2Isabelle
  imports Main "HOL-Library.Word"
begin

unbundle bit_operations_syntax

section \<open>The interface board sketch (interface\_board.ino)\<close>

text \<open>
  The sketch runs on an Olimex 32u4 Leonardo (AVR): \<open>char\<close> is 8 bits, \<open>int\<close> is 16 bits,
  \<open>long\<close> is 32 bits, and multi-byte values lie in memory least significant byte first.
  The radio (RF24), the GPIO expanders (MCP23S17) and the random generator are library
  code outside the sketch; what they deliver is an input of the model:
  \<^item> \<open>readPort()\<close> of expander \<open>e\<close> delivers the 16-bit value \<open>rd e t\<close>, where \<open>t\<close>
    counts the port reads made so far, so that the ports may change between any two reads;
  \<^item> \<open>random()\<close> delivers a 32-bit value \<open>r\<close>;
  \<^item> \<open>radio.whatHappened\<close> and \<open>radio.read\<close> deliver a \<open>radio_event\<close>.
\<close>

subsection \<open>Constants\<close>

datatype magnet =
  PRIMO_MAGNET_NONE | PRIMO_MAGNET_FORWARD | PRIMO_MAGNET_RIGHT | PRIMO_MAGNET_LEFT
  | PRIMO_MAGNET_FUNCTION | PRIMO_MAGNET_ERR

definition PRIMO_NRF24L01_MAX_PACKET_SIZE :: nat where
  "PRIMO_NRF24L01_MAX_PACKET_SIZE = 32"

definition PRIMO_ID :: "32 word" where
  "PRIMO_ID = 0xDE1D8758"

definition PRIMO_COMMAND_STOP :: "8 word" where
  "PRIMO_COMMAND_STOP = 0x00"

definition PRIMO_COMMAND_FORWARD :: "8 word" where
  "PRIMO_COMMAND_FORWARD = 0x01"

definition PRIMO_COMMAND_LEFT :: "8 word" where
  "PRIMO_COMMAND_LEFT = 0x02"

definition PRIMO_COMMAND_RIGHT :: "8 word" where
  "PRIMO_COMMAND_RIGHT = 0x03"

definition PRIMO_MAX_BUTTON :: nat where
  "PRIMO_MAX_BUTTON = 28"

subsection \<open>State\<close>

text \<open>
  The globals of the sketch that the frame building, the sending and the radio interrupt
  use. Four fields are not variables of the sketch but records of what it did:
  \<open>stores\<close> lists every store \<open>packet[i] = v\<close> that \<open>loop\<close> executed, as \<open>(i, v)\<close> in
  order; \<open>sent\<close> lists the buffers handed to \<open>radio.startWrite\<close>; \<open>power_downs\<close> counts
  the calls of \<open>radio.powerDown\<close>; \<open>overrun\<close> tells whether a store has landed behind
  the array \<open>packet\<close>. \<open>reads\<close> counts the calls of \<open>readPort\<close>.

  \<open>current_element\<close> and \<open>button\<close> are \<open>char\<close> in the sketch and natural numbers
  here: \<open>current_element\<close> never exceeds 120 (lemma \<open>current_element_fits_char\<close>),
  so the 8-bit variable does not wrap.

  \<open>packet\<close> is the 32-byte array. The sketch never compares \<open>current_element\<close> with
  the size of the array, so a store \<open>packet[i] = v\<close> with \<open>32 \<le> i\<close> is executed and lands
  in the memory behind the array. Which variables lie there (the other statics of the
  sketch among them) is decided when the sketch is linked and is not in the source, so
  the model cannot say what such a store changes. It lists the store in \<open>stores\<close> and
  sets \<open>overrun\<close>, which is never reset. As long as \<open>overrun\<close> is not set, the fields are
  the variables of the sketch. Once it is set, they are the variables of a run in which
  the stores behind the array have hit none of them: the sketch itself may go on
  differently. A theorem about what a pass leaves in the variables is therefore stated
  for a pass that stays inside the array. The theorems at failing inputs evaluate the
  model there: they show where the stores go, and what the array holds if these stores
  hit none of the variables of the sketch.
\<close>

type_synonym reader = "nat \<Rightarrow> nat \<Rightarrow> 16 word"

record primo =
  packet :: "8 word list"
  primo_random :: "32 word"
  ackMessageCount :: "32 word"
  current_element :: nat
  terminated :: bool
  reads :: nat
  stores :: "(nat \<times> 8 word) list"
  sent :: "8 word list list"
  power_downs :: nat
  overrun :: bool

subsection \<open>check\_button\<close>

text \<open>
  The first switch of \<open>check_button\<close>: for each button number the expander that is read,
  the right shift applied to the port value, and the flags \<open>invert_magnet\<close> and
  \<open>twisted\<close>. The \<open>default\<close> branch reads no port.
\<close>

definition hall_wiring :: "nat \<Rightarrow> (nat \<times> nat \<times> bool \<times> bool) option" where
  "hall_wiring button_to_check =
    (if button_to_check = 1 then Some (1, 0, False, False)
     else if button_to_check = 2 then Some (1, 4, False, False)
     else if button_to_check = 3 then Some (1, 8, False, False)
     else if button_to_check = 4 then Some (1, 12, False, False)
     else if button_to_check = 5 then Some (2, 0, True, False)
     else if button_to_check = 6 then Some (2, 4, True, False)
     else if button_to_check = 7 then Some (2, 8, True, False)
     else if button_to_check = 8 then Some (2, 12, True, True)
     else if button_to_check = 9 then Some (3, 0, False, False)
     else if button_to_check = 10 then Some (3, 4, False, False)
     else if button_to_check = 11 then Some (3, 8, False, False)
     else if button_to_check = 12 then Some (3, 12, False, False)
     else if button_to_check = 13 then Some (4, 0, False, False)
     else if button_to_check = 14 then Some (4, 4, False, False)
     else if button_to_check = 15 then Some (4, 8, False, False)
     else if button_to_check = 16 then Some (4, 12, False, False)
     else None)"

definition invert_magnet :: "nat \<Rightarrow> bool" where
  "invert_magnet button_to_check =
    (case hall_wiring button_to_check of None \<Rightarrow> False | Some (e, sh, im, tw) \<Rightarrow> im)"

definition twisted :: "nat \<Rightarrow> bool" where
  "twisted button_to_check =
    (case hall_wiring button_to_check of None \<Rightarrow> False | Some (e, sh, im, tw) \<Rightarrow> tw)"

text \<open>\<open>(hall_response >> sh) & 0x0F\<close> on the 16-bit signed \<open>int hall_response\<close>.\<close>

definition nibble :: "nat \<Rightarrow> 16 word \<Rightarrow> 8 word" where
  "nibble sh hall_response = ucast (signed_drop_bit sh hall_response AND 0x0F)"

text \<open>\<open>t_button = (button & 0x01) + ((button & 0x02) << 1) + ((button & 0x04) >> 1)\<close>\<close>

definition untwist :: "8 word \<Rightarrow> 8 word" where
  "untwist button =
    (button AND 0x01) + push_bit 1 (button AND 0x02) + drop_bit 1 (button AND 0x04)"

text \<open>
  The value of the local \<open>button\<close> when the second switch is reached, for a call that
  makes port read number \<open>t\<close>.
\<close>

definition hall_code :: "reader \<Rightarrow> nat \<Rightarrow> nat \<Rightarrow> 8 word" where
  "hall_code rd t button_to_check =
    (case hall_wiring button_to_check of
       None \<Rightarrow> 0 AND 0x07
     | Some (e, sh, im, tw) \<Rightarrow>
         (let hall_response = rd e t;
              button = nibble sh hall_response;
              button = button AND 0x07
          in if tw then untwist button else button))"

text \<open>The second switch of \<open>check_button\<close> (``convert to button codes'').\<close>

definition convert :: "bool \<Rightarrow> 8 word \<Rightarrow> magnet" where
  "convert im button =
    (if button = 2 then (if im then PRIMO_MAGNET_FUNCTION else PRIMO_MAGNET_FUNCTION)
     else if button = 3 then (if im then PRIMO_MAGNET_RIGHT else PRIMO_MAGNET_FORWARD)
     else if button = 4 then (if im then PRIMO_MAGNET_FUNCTION else PRIMO_MAGNET_NONE)
     else if button = 5 then (if im then PRIMO_MAGNET_LEFT else PRIMO_MAGNET_LEFT)
     else if button = 6 then (if im then PRIMO_MAGNET_FORWARD else PRIMO_MAGNET_RIGHT)
     else if button = 7 then PRIMO_MAGNET_NONE
     else PRIMO_MAGNET_NONE)"

definition button_value :: "reader \<Rightarrow> nat \<Rightarrow> nat \<Rightarrow> magnet" where
  "button_value rd t button_to_check =
    convert (invert_magnet button_to_check) (hall_code rd t button_to_check)"

definition check_button :: "reader \<Rightarrow> nat \<Rightarrow> primo \<Rightarrow> magnet \<times> primo" where
  "check_button rd button_to_check s =
    (button_value rd (reads s) button_to_check,
     (case hall_wiring button_to_check of
        None \<Rightarrow> s
      | Some w \<Rightarrow> s\<lparr>reads := reads s + 1\<rparr>))"

subsection \<open>Building the packet in loop\<close>

text \<open>
  \<open>packet[current_element++] = v\<close>. Inside the array the byte is written. Behind the
  array the store is listed and \<open>overrun\<close> is set; what it overwrites there is not
  modelled.
\<close>

definition store :: "8 word \<Rightarrow> primo \<Rightarrow> primo" where
  "store v s =
    s\<lparr>packet :=
        (if current_element s < PRIMO_NRF24L01_MAX_PACKET_SIZE
         then (packet s)[current_element s := v]
         else packet s),
      stores := stores s @ [(current_element s, v)],
      current_element := current_element s + 1,
      overrun := (overrun s \<or> \<not> current_element s < PRIMO_NRF24L01_MAX_PACKET_SIZE)\<rparr>"

text \<open>One pass of the inner loop over \<open>function_element\<close>.\<close>

definition function_step :: "reader \<Rightarrow> nat \<Rightarrow> primo \<Rightarrow> primo" where
  "function_step rd function_element s =
    (case check_button rd (12 + function_element) s of
       (m, s') \<Rightarrow>
         (case m of
            PRIMO_MAGNET_FORWARD \<Rightarrow> store PRIMO_COMMAND_FORWARD s'
          | PRIMO_MAGNET_RIGHT \<Rightarrow> store PRIMO_COMMAND_RIGHT s'
          | PRIMO_MAGNET_LEFT \<Rightarrow> store PRIMO_COMMAND_LEFT s'
          | _ \<Rightarrow> s'))"

text \<open>\<open>for (function_element = 1; function_element <= 4; function_element++)\<close>\<close>

definition function_loop :: "reader \<Rightarrow> primo \<Rightarrow> primo" where
  "function_loop rd s = fold (function_step rd) [1 ..< 5] s"

text \<open>One pass of the loop over \<open>button\<close>.\<close>

definition button_step :: "reader \<Rightarrow> nat \<Rightarrow> primo \<Rightarrow> primo" where
  "button_step rd button s =
    (if \<not> terminated s then
       (case check_button rd button s of
          (m, s') \<Rightarrow>
            (case m of
               PRIMO_MAGNET_FORWARD \<Rightarrow> store PRIMO_COMMAND_FORWARD s'
             | PRIMO_MAGNET_RIGHT \<Rightarrow> store PRIMO_COMMAND_RIGHT s'
             | PRIMO_MAGNET_LEFT \<Rightarrow> store PRIMO_COMMAND_LEFT s'
             | PRIMO_MAGNET_FUNCTION \<Rightarrow> function_loop rd s'
             | PRIMO_MAGNET_NONE \<Rightarrow> s'\<lparr>terminated := True\<rparr>
             | _ \<Rightarrow> s'))
     else store PRIMO_COMMAND_STOP s)"

text \<open>\<open>for (button = 1; button <= PRIMO_MAX_BUTTON; button++)\<close>\<close>

definition button_loop :: "reader \<Rightarrow> primo \<Rightarrow> primo" where
  "button_loop rd s = fold (button_step rd) [1 ..< Suc PRIMO_MAX_BUTTON] s"

text \<open>\<open>while (current_element < PRIMO_MAX_BUTTON) packet[current_element++] = PRIMO_COMMAND_STOP;\<close>\<close>

function pad_stops :: "primo \<Rightarrow> primo" where
  "pad_stops s =
    (if current_element s < PRIMO_MAX_BUTTON then pad_stops (store PRIMO_COMMAND_STOP s)
     else s)"
  by pat_completeness auto
termination
  by (relation "measure (\<lambda>s. PRIMO_MAX_BUTTON - current_element s)")
     (auto simp: store_def)

declare pad_stops.simps [simp del]

text \<open>
  The part of \<open>loop\<close> that computes the packet, from \<open>current_element = 8\<close> to the end
  of the padding loop. The four debug prints before the scan read each expander once.
\<close>

definition build_packet :: "reader \<Rightarrow> primo \<Rightarrow> primo" where
  "build_packet rd s =
    pad_stops
      (button_loop rd
        (s\<lparr>current_element := 8, terminated := False, reads := reads s + 4\<rparr>))"

text \<open>\<open>radio.startWrite(packet, PRIMO_NRF24L01_MAX_PACKET_SIZE)\<close>\<close>

definition startWrite :: "primo \<Rightarrow> primo" where
  "startWrite s = s\<lparr>sent := sent s @ [take PRIMO_NRF24L01_MAX_PACKET_SIZE (packet s)]\<rparr>"

text \<open>
  \<open>loop\<close> for one completed gesture: the button was pressed and released, so both
  polling loops have ended. The packet is built and handed to the radio twice. The LED
  writes and the delays before and after (which store nothing into \<open>packet\<close> and do not
  call the radio) are left out.
\<close>

definition loop :: "reader \<Rightarrow> primo \<Rightarrow> primo" where
  "loop rd s = startWrite (startWrite (build_packet rd s))"

subsection \<open>initialise\_packet and the start-up\<close>

text \<open>\<open>memcpy(&packet[at], &w, 4)\<close> for a 32-bit \<open>long w\<close>, least significant byte first.\<close>

definition le_bytes :: "32 word \<Rightarrow> 8 word list" where
  "le_bytes w = map (\<lambda>k. ucast (drop_bit (8 * k) w)) [0 ..< 4]"

definition memcpy4 :: "nat \<Rightarrow> 32 word \<Rightarrow> 8 word list \<Rightarrow> 8 word list" where
  "memcpy4 at w p = take at p @ le_bytes w @ drop (at + 4) p"

definition test_pattern :: "8 word list" where
  "test_pattern =
    [PRIMO_COMMAND_FORWARD, PRIMO_COMMAND_LEFT, PRIMO_COMMAND_FORWARD, PRIMO_COMMAND_LEFT,
     PRIMO_COMMAND_FORWARD, PRIMO_COMMAND_LEFT, PRIMO_COMMAND_FORWARD, PRIMO_COMMAND_RIGHT,
     PRIMO_COMMAND_FORWARD, PRIMO_COMMAND_RIGHT, PRIMO_COMMAND_FORWARD, PRIMO_COMMAND_RIGHT,
     PRIMO_COMMAND_FORWARD, PRIMO_COMMAND_RIGHT, PRIMO_COMMAND_FORWARD, PRIMO_COMMAND_LEFT,
     PRIMO_COMMAND_STOP, PRIMO_COMMAND_STOP, PRIMO_COMMAND_STOP, PRIMO_COMMAND_STOP,
     PRIMO_COMMAND_STOP, PRIMO_COMMAND_STOP, PRIMO_COMMAND_STOP, PRIMO_COMMAND_STOP]"

text \<open>
  \<open>initialise_packet\<close>, with \<open>r\<close> the value that \<open>random()\<close> returns: the two
  \<open>memcpy\<close> and then the stores \<open>packet[8]\<close> to \<open>packet[31]\<close>.
\<close>

definition initialise_packet :: "32 word \<Rightarrow> primo \<Rightarrow> primo" where
  "initialise_packet r s =
    s\<lparr>primo_random := r,
      packet := take 8 (memcpy4 4 r (memcpy4 0 PRIMO_ID (packet s))) @ test_pattern\<rparr>"

text \<open>The statics at power-on: zero-initialised.\<close>

definition power_on :: primo where
  "power_on =
    \<lparr>packet = replicate PRIMO_NRF24L01_MAX_PACKET_SIZE 0, primo_random = 0,
     ackMessageCount = 0, current_element = 0, terminated = False, reads = 0,
     stores = [], sent = [], power_downs = 0, overrun = False\<rparr>"

definition setup_primo :: "32 word \<Rightarrow> primo" where
  "setup_primo r = initialise_packet r power_on"

subsection \<open>checkRadio\<close>

text \<open>
  What the radio reports to the interrupt handler: the three flags of
  \<open>radio.whatHappened\<close> and the four bytes that \<open>radio.read\<close> would deliver.
\<close>

record radio_event =
  tx :: bool
  fail :: bool
  rx :: bool
  ack_payload :: "32 word"

definition checkRadio :: "radio_event \<Rightarrow> primo \<Rightarrow> primo" where
  "checkRadio ev s =
    (let s1 = (if tx ev \<or> fail ev then s\<lparr>power_downs := power_downs s + 1\<rparr> else s)
     in if rx ev then s1\<lparr>ackMessageCount := ack_payload ev\<rparr> else s1)"

subsection \<open>Runs\<close>

text \<open>
  What happens after start-up: completed gestures, each with the port values that its
  reads see, and radio interrupts.
\<close>

datatype event = Gesture reader | Interrupt radio_event

fun step :: "event \<Rightarrow> primo \<Rightarrow> primo" where
  "step (Gesture rd) s = loop rd s"
| "step (Interrupt ev) s = checkRadio ev s"

definition run :: "event list \<Rightarrow> primo \<Rightarrow> primo" where
  "run evs s = fold step evs s"

text \<open>Ports that keep one value per expander through a whole gesture.\<close>

definition ports :: "16 word \<Rightarrow> 16 word \<Rightarrow> 16 word \<Rightarrow> 16 word \<Rightarrow> reader" where
  "ports h1 h2 h3 h4 e t =
    (if e = 1 then h1 else if e = 2 then h2 else if e = 3 then h3 else h4)"

subsection \<open>The decode tables as the specification words them\<close>

definition canonical_table :: "(8 word \<times> magnet) list" where
  "canonical_table =
    [(0, PRIMO_MAGNET_NONE), (2, PRIMO_MAGNET_FUNCTION), (3, PRIMO_MAGNET_FORWARD),
     (4, PRIMO_MAGNET_NONE), (5, PRIMO_MAGNET_LEFT), (6, PRIMO_MAGNET_RIGHT),
     (7, PRIMO_MAGNET_NONE)]"

definition inverted_table :: "(8 word \<times> magnet) list" where
  "inverted_table =
    [(2, PRIMO_MAGNET_FUNCTION), (3, PRIMO_MAGNET_RIGHT), (4, PRIMO_MAGNET_FUNCTION),
     (5, PRIMO_MAGNET_LEFT), (6, PRIMO_MAGNET_FORWARD), (7, PRIMO_MAGNET_NONE)]"

definition spec_decode :: "bool \<Rightarrow> 8 word \<Rightarrow> magnet" where
  "spec_decode im code =
    (case map_of (if im then inverted_table else canonical_table) code of
       Some m \<Rightarrow> m
     | None \<Rightarrow> PRIMO_MAGNET_NONE)"

subsection \<open>The wire format as the specification words it\<close>

text \<open>A 32-bit value read from four bytes, least significant byte first.\<close>

fun le_word :: "8 word list \<Rightarrow> 32 word" where
  "le_word [] = 0"
| "le_word (b # bs) = ucast b OR push_bit 8 (le_word bs)"

definition valid_command :: "8 word \<Rightarrow> bool" where
  "valid_command c =
    (c = PRIMO_COMMAND_STOP \<or> c = PRIMO_COMMAND_FORWARD \<or> c = PRIMO_COMMAND_LEFT
     \<or> c = PRIMO_COMMAND_RIGHT)"

text \<open>
  Offset 0: the protocol tag; offset 4: the device identity \<open>r\<close>; offsets 8 to 31:
  24 commands of one byte each.
\<close>

definition wire_format :: "32 word \<Rightarrow> 8 word list \<Rightarrow> bool" where
  "wire_format r f =
    (length f = 32 \<and> le_word (take 4 f) = 0xDE1D8758 \<and> le_word (take 4 (drop 4 f)) = r
     \<and> list_all valid_command (drop 8 f))"

text \<open>No Stop is followed by a command that is not Stop.\<close>

fun no_gap :: "8 word list \<Rightarrow> bool" where
  "no_gap [] = True"
| "no_gap (c # cs) =
    (if c = PRIMO_COMMAND_STOP then list_all (\<lambda>x. x = PRIMO_COMMAND_STOP) cs else no_gap cs)"

subsection \<open>The function expansion as the specification words it\<close>

text \<open>
  An auxiliary slot that decodes Forward, Left or Right gives that one command; any other
  decode gives nothing. The expansion is what the four auxiliary slots give, in order.
\<close>

definition motion :: "magnet \<Rightarrow> 8 word list" where
  "motion m =
    (case m of
       PRIMO_MAGNET_FORWARD \<Rightarrow> [PRIMO_COMMAND_FORWARD]
     | PRIMO_MAGNET_LEFT \<Rightarrow> [PRIMO_COMMAND_LEFT]
     | PRIMO_MAGNET_RIGHT \<Rightarrow> [PRIMO_COMMAND_RIGHT]
     | _ \<Rightarrow> [])"

definition expansion :: "magnet list \<Rightarrow> 8 word list" where
  "expansion ms = concat (map motion ms)"

text \<open>
  The decodes of buttons 13 to 16 when the first of the four is port read number \<open>t\<close>.
\<close>

definition aux_decodes :: "reader \<Rightarrow> nat \<Rightarrow> magnet list" where
  "aux_decodes rd t = map (\<lambda>k. button_value rd (t + k) (13 + k)) [0 ..< 4]"

subsection \<open>Proof devices\<close>

text \<open>Two states that differ at most in the two fields that \<open>checkRadio\<close> writes.\<close>

definition agree :: "primo \<Rightarrow> primo \<Rightarrow> bool" where
  "agree s t =
    (packet s = packet t \<and> primo_random s = primo_random t
     \<and> current_element s = current_element t \<and> terminated s = terminated t
     \<and> reads s = reads t \<and> stores s = stores t \<and> sent s = sent t
     \<and> overrun s = overrun t)"

text \<open>
  The invariant of the packet: its length and, as long as no store has landed behind
  the array, the two header words as \<open>initialise_packet\<close> wrote them and valid commands
  behind them, in the packet and in every buffer sent. \<open>building\<close> adds what holds while
  the packet is computed: \<open>current_element\<close> is behind the header.
\<close>

definition header_ok :: "32 word \<Rightarrow> 8 word list \<Rightarrow> bool" where
  "header_ok r p =
    (length p = 32 \<and> take 8 p = le_bytes PRIMO_ID @ le_bytes r
     \<and> list_all valid_command (drop 8 p))"

definition frame_inv :: "32 word \<Rightarrow> primo \<Rightarrow> bool" where
  "frame_inv r s =
    (length (packet s) = 32
     \<and> (\<not> overrun s \<longrightarrow> header_ok r (packet s) \<and> list_all (header_ok r) (sent s)))"

definition building :: "32 word \<Rightarrow> primo \<Rightarrow> bool" where
  "building r s = (frame_inv r s \<and> (\<not> overrun s \<longrightarrow> 8 \<le> current_element s))"

section \<open>Helper lemmas\<close>

lemma nat_le7:
  fixes k :: nat
  assumes "k \<le> 7"
  shows "k = 0 \<or> k = 1 \<or> k = 2 \<or> k = 3 \<or> k = 4 \<or> k = 5 \<or> k = 6 \<or> k = 7"
  using assms by arith

lemma unat_and7_le:
  fixes b :: "8 word"
  shows "unat (b AND 7) \<le> 7"
proof -
  have "unat (b AND 7) \<le> unat (7 :: 8 word)"
    by (rule word_and_le1 [THEN word_le_nat_alt [THEN iffD1]])
  then show ?thesis by simp
qed

lemma three_bit_cases:
  fixes b :: "8 word"
  shows "b AND 7 = 0 \<or> b AND 7 = 1 \<or> b AND 7 = 2 \<or> b AND 7 = 3
    \<or> b AND 7 = 4 \<or> b AND 7 = 5 \<or> b AND 7 = 6 \<or> b AND 7 = 7"
proof -
  define k where "k = unat (b AND 7)"
  have c: "b AND 7 = of_nat k" by (simp add: k_def)
  have "k \<le> 7" unfolding k_def by (rule unat_and7_le)
  then have "k = 0 \<or> k = 1 \<or> k = 2 \<or> k = 3 \<or> k = 4 \<or> k = 5 \<or> k = 6 \<or> k = 7"
    by (rule nat_le7)
  then show ?thesis unfolding c by (elim disjE) simp_all
qed

subsection \<open>Decoding\<close>

lemma untwist_values:
  "untwist 0 = 0" "untwist 1 = 1" "untwist 2 = 4" "untwist 3 = 5"
  "untwist 4 = 2" "untwist 5 = 3" "untwist 6 = 6" "untwist 7 = 7"
  by (simp_all add: untwist_def)

lemma untwist_three_bit: "untwist (b AND 7) AND 7 = untwist (b AND 7)"
  using three_bit_cases [of b] by (elim disjE) (simp_all add: untwist_values)

lemma untwist_involution: "untwist (untwist (b AND 7)) = b AND 7"
  using three_bit_cases [of b] by (elim disjE) (simp_all add: untwist_values)

lemma hall_code_three_bit: "hall_code rd t b AND 7 = hall_code rd t b"
  by (cases "hall_wiring b") (auto simp: hall_code_def Let_def untwist_three_bit)

lemma invert_magnet_iff: "invert_magnet b \<longleftrightarrow> b \<in> {5, 6, 7, 8}"
  by (simp add: invert_magnet_def hall_wiring_def)

lemma twisted_iff: "twisted b \<longleftrightarrow> b = 8"
  by (simp add: twisted_def hall_wiring_def)

lemma bits_and7:
  fixes b :: "8 word"
  shows "bit (b AND 7) 0 = bit b 0" "bit (b AND 7) 1 = bit b 1" "bit (b AND 7) 2 = bit b 2"
  by (simp_all add: bit_simps)

lemma untwist_bits:
  fixes c :: "8 word"
  assumes "c = 0 \<or> c = 1 \<or> c = 2 \<or> c = 3 \<or> c = 4 \<or> c = 5 \<or> c = 6 \<or> c = 7"
  shows "bit (untwist c) 0 = bit c 0 \<and> bit (untwist c) 1 = bit c 2
    \<and> bit (untwist c) 2 = bit c 1"
  using assms by (elim disjE) (simp_all add: untwist_values)

lemma convert_table: "convert im c = spec_decode im c"
  by (simp add: convert_def spec_decode_def canonical_table_def inverted_table_def)

subsection \<open>Folds\<close>

lemma fold_commute:
  assumes "\<And>x s. f x (g s) = g (f x s)"
  shows "fold f xs (g s) = g (fold f xs s)"
  using assms by (induction xs arbitrary: s) simp_all

lemma fold_invariant:
  assumes "\<And>x s. P s \<Longrightarrow> P (f x s)" and "P s"
  shows "P (fold f xs s)"
  using assms by (induction xs arbitrary: s) simp_all

subsection \<open>The radio fields do not enter the packet building\<close>

lemma fold_related:
  assumes "\<And>x s t. R s t \<Longrightarrow> R (f x s) (f x t)" and "R s t"
  shows "R (fold f xs s) (fold f xs t)"
  using assms by (induction xs arbitrary: s t) simp_all

lemma store_agree: "agree s t \<Longrightarrow> agree (store v s) (store v t)"
  by (simp add: agree_def store_def)

lemma check_button_agree:
  assumes "agree s t"
  shows "fst (check_button rd b s) = fst (check_button rd b t)"
    and "agree (snd (check_button rd b s)) (snd (check_button rd b t))"
  using assms by (simp_all add: agree_def check_button_def split: option.splits)

lemma function_step_agree:
  assumes "agree s t"
  shows "agree (function_step rd fe s) (function_step rd fe t)"
proof -
  let ?m = "fst (check_button rd (12 + fe) s)"
  let ?s' = "snd (check_button rd (12 + fe) s)"
  let ?t' = "snd (check_button rd (12 + fe) t)"
  have m: "fst (check_button rd (12 + fe) t) = ?m"
    using check_button_agree(1) [OF assms] by simp
  have a: "agree ?s' ?t'" using assms by (rule check_button_agree(2))
  have "function_step rd fe s =
      (case ?m of
         PRIMO_MAGNET_FORWARD \<Rightarrow> store PRIMO_COMMAND_FORWARD ?s'
       | PRIMO_MAGNET_RIGHT \<Rightarrow> store PRIMO_COMMAND_RIGHT ?s'
       | PRIMO_MAGNET_LEFT \<Rightarrow> store PRIMO_COMMAND_LEFT ?s'
       | _ \<Rightarrow> ?s')"
    by (simp add: function_step_def case_prod_unfold)
  moreover have "function_step rd fe t =
      (case ?m of
         PRIMO_MAGNET_FORWARD \<Rightarrow> store PRIMO_COMMAND_FORWARD ?t'
       | PRIMO_MAGNET_RIGHT \<Rightarrow> store PRIMO_COMMAND_RIGHT ?t'
       | PRIMO_MAGNET_LEFT \<Rightarrow> store PRIMO_COMMAND_LEFT ?t'
       | _ \<Rightarrow> ?t')"
    unfolding m [symmetric] by (simp add: function_step_def case_prod_unfold)
  ultimately show ?thesis
    using a by (cases ?m) (simp_all add: store_agree)
qed

lemma function_loop_agree:
  "agree s t \<Longrightarrow> agree (function_loop rd s) (function_loop rd t)"
  unfolding function_loop_def by (rule fold_related) (rule function_step_agree)

lemma terminated_agree:
  "agree s t \<Longrightarrow> agree (s\<lparr>terminated := True\<rparr>) (t\<lparr>terminated := True\<rparr>)"
  by (simp add: agree_def)

lemma button_step_agree:
  assumes "agree s t"
  shows "agree (button_step rd b s) (button_step rd b t)"
proof (cases "terminated s")
  case True
  then have "terminated t" using assms by (simp add: agree_def)
  then show ?thesis using True assms by (simp add: button_step_def store_agree)
next
  case False
  then have nt: "\<not> terminated t" using assms by (simp add: agree_def)
  let ?m = "fst (check_button rd b s)"
  let ?s' = "snd (check_button rd b s)"
  let ?t' = "snd (check_button rd b t)"
  have m: "fst (check_button rd b t) = ?m"
    using check_button_agree(1) [OF assms] by simp
  have a: "agree ?s' ?t'" using assms by (rule check_button_agree(2))
  have "button_step rd b s =
      (case ?m of
         PRIMO_MAGNET_FORWARD \<Rightarrow> store PRIMO_COMMAND_FORWARD ?s'
       | PRIMO_MAGNET_RIGHT \<Rightarrow> store PRIMO_COMMAND_RIGHT ?s'
       | PRIMO_MAGNET_LEFT \<Rightarrow> store PRIMO_COMMAND_LEFT ?s'
       | PRIMO_MAGNET_FUNCTION \<Rightarrow> function_loop rd ?s'
       | PRIMO_MAGNET_NONE \<Rightarrow> ?s'\<lparr>terminated := True\<rparr>
       | _ \<Rightarrow> ?s')"
    using False by (simp add: button_step_def case_prod_unfold)
  moreover have "button_step rd b t =
      (case ?m of
         PRIMO_MAGNET_FORWARD \<Rightarrow> store PRIMO_COMMAND_FORWARD ?t'
       | PRIMO_MAGNET_RIGHT \<Rightarrow> store PRIMO_COMMAND_RIGHT ?t'
       | PRIMO_MAGNET_LEFT \<Rightarrow> store PRIMO_COMMAND_LEFT ?t'
       | PRIMO_MAGNET_FUNCTION \<Rightarrow> function_loop rd ?t'
       | PRIMO_MAGNET_NONE \<Rightarrow> ?t'\<lparr>terminated := True\<rparr>
       | _ \<Rightarrow> ?t')"
    unfolding m [symmetric] using nt by (simp add: button_step_def case_prod_unfold)
  ultimately show ?thesis
    using a by (cases ?m) (simp_all add: store_agree function_loop_agree terminated_agree)
qed

lemma button_loop_agree:
  "agree s t \<Longrightarrow> agree (button_loop rd s) (button_loop rd t)"
  unfolding button_loop_def by (rule fold_related) (rule button_step_agree)

lemma pad_stops_agree: "agree s t \<Longrightarrow> agree (pad_stops s) (pad_stops t)"
proof (induction s arbitrary: t rule: pad_stops.induct)
  case (1 s)
  have ce: "current_element t = current_element s"
    using "1.prems" by (simp add: agree_def)
  show ?case
  proof (cases "current_element s < PRIMO_MAX_BUTTON")
    case True
    have "agree (pad_stops (store PRIMO_COMMAND_STOP s)) (pad_stops (store PRIMO_COMMAND_STOP t))"
      using True "1.prems" by (intro "1.IH" store_agree)
    then show ?thesis
      using True ce by (simp add: pad_stops.simps [of s] pad_stops.simps [of t])
  next
    case False
    then show ?thesis
      using "1.prems" ce by (simp add: pad_stops.simps [of s] pad_stops.simps [of t])
  qed
qed

lemma build_packet_agree:
  assumes "agree s t"
  shows "agree (build_packet rd s) (build_packet rd t)"
proof -
  have "agree (s\<lparr>current_element := 8, terminated := False, reads := reads s + 4\<rparr>)
      (t\<lparr>current_element := 8, terminated := False, reads := reads t + 4\<rparr>)"
    using assms by (simp add: agree_def)
  then show ?thesis
    unfolding build_packet_def by (intro pad_stops_agree button_loop_agree)
qed

lemma startWrite_agree: "agree s t \<Longrightarrow> agree (startWrite s) (startWrite t)"
  by (simp add: agree_def startWrite_def)

lemma loop_agree: "agree s t \<Longrightarrow> agree (loop rd s) (loop rd t)"
  unfolding loop_def by (intro startWrite_agree build_packet_agree)

lemma checkRadio_agree: "agree (checkRadio ev s) s"
  by (simp add: agree_def checkRadio_def Let_def)

lemma loop_after_checkRadio:
  "sent (loop rd (checkRadio ev s)) = sent (loop rd s)"
  "packet (loop rd (checkRadio ev s)) = packet (loop rd s)"
  using loop_agree [OF checkRadio_agree, of rd ev s] by (simp_all add: agree_def)

subsection \<open>Little-endian bytes\<close>

lemma le_bytes_list:
  "le_bytes w = [ucast w, ucast (drop_bit 8 w), ucast (drop_bit 16 w), ucast (drop_bit 24 w)]"
  by (simp add: le_bytes_def upt_rec)

lemma le_word_le_bytes: "le_word (le_bytes w) = w"
  unfolding le_bytes_list
proof (rule bit_word_eqI)
  fix n
  assume "n < LENGTH(32)"
  then have n: "n < 32" by simp
  consider "n < 8" | "8 \<le> n" "n < 16" | "16 \<le> n" "n < 24" | "24 \<le> n"
    by linarith
  then show "bit (le_word [ucast w, ucast (drop_bit 8 w), ucast (drop_bit 16 w),
      ucast (drop_bit 24 w)]) n = bit w n"
    using n by cases (auto simp: bit_simps)
qed

lemma le_bytes_PRIMO_ID: "le_bytes PRIMO_ID = [0x58, 0x87, 0x1D, 0xDE]"
  by (simp add: le_bytes_list PRIMO_ID_def)

subsection \<open>The packet invariant\<close>

lemma header_ok_update:
  assumes "header_ok r p" and "8 \<le> i" and "valid_command v"
  shows "header_ok r (p[i := v])"
proof -
  have "take 8 (p[i := v]) = take 8 p"
    using assms(2) by simp
  moreover have "drop 8 (p[i := v]) = (drop 8 p)[i - 8 := v]"
    using assms(2) by (simp add: drop_update_swap)
  moreover have "list_all valid_command ((drop 8 p)[i - 8 := v])"
    using assms(1,3) set_update_subset_insert [of "drop 8 p" "i - 8" v]
    by (auto simp: header_ok_def list_all_iff)
  ultimately show ?thesis
    using assms(1) by (simp add: header_ok_def)
qed

lemma valid_commands:
  "valid_command PRIMO_COMMAND_STOP" "valid_command PRIMO_COMMAND_FORWARD"
  "valid_command PRIMO_COMMAND_LEFT" "valid_command PRIMO_COMMAND_RIGHT"
  by (simp_all add: valid_command_def)

lemma valid_command_values:
  "valid_command c \<longleftrightarrow> c = 0 \<or> c = 1 \<or> c = 2 \<or> c = 3"
  by (simp add: valid_command_def PRIMO_COMMAND_STOP_def PRIMO_COMMAND_FORWARD_def
      PRIMO_COMMAND_LEFT_def PRIMO_COMMAND_RIGHT_def)

lemma store_building:
  assumes "building r s" and "valid_command v"
  shows "building r (store v s)"
  using assms header_ok_update [of r "packet s" "current_element s" v]
  by (auto simp: building_def frame_inv_def store_def PRIMO_NRF24L01_MAX_PACKET_SIZE_def)

lemma check_button_building:
  "building r s \<Longrightarrow> building r (snd (check_button rd b s))"
  by (simp add: building_def frame_inv_def check_button_def split: option.splits)

lemma function_step_building:
  "building r s \<Longrightarrow> building r (function_step rd fe s)"
  using check_button_building [of r s rd "12 + fe"]
  by (auto simp: function_step_def store_building valid_commands
      split: prod.splits magnet.splits)

lemma function_loop_building:
  "building r s \<Longrightarrow> building r (function_loop rd s)"
  unfolding function_loop_def by (rule fold_invariant) (rule function_step_building)

lemma terminated_building: "building r s \<Longrightarrow> building r (s\<lparr>terminated := True\<rparr>)"
  by (simp add: building_def frame_inv_def)

lemma button_step_building:
  "building r s \<Longrightarrow> building r (button_step rd b s)"
  using check_button_building [of r s rd b]
  by (auto simp: button_step_def store_building valid_commands function_loop_building
      terminated_building split: prod.splits magnet.splits)

lemma button_loop_building:
  "building r s \<Longrightarrow> building r (button_loop rd s)"
  unfolding button_loop_def by (rule fold_invariant) (rule button_step_building)

lemma pad_stops_building:
  "building r s \<Longrightarrow> building r (pad_stops s)"
proof (induction s rule: pad_stops.induct)
  case (1 s)
  show ?case
  proof (cases "current_element s < PRIMO_MAX_BUTTON")
    case True
    then show ?thesis
      using "1.IH" [OF True] "1.prems"
      by (simp add: pad_stops.simps [of s] store_building valid_commands)
  next
    case False
    then show ?thesis
      using "1.prems" by (simp add: pad_stops.simps [of s])
  qed
qed

lemma build_packet_building:
  assumes "frame_inv r s"
  shows "building r (build_packet rd s)"
proof -
  have "building r (s\<lparr>current_element := 8, terminated := False, reads := reads s + 4\<rparr>)"
    using assms by (simp add: building_def frame_inv_def)
  then show ?thesis
    unfolding build_packet_def by (intro pad_stops_building button_loop_building)
qed

lemma building_frame_inv: "building r s \<Longrightarrow> frame_inv r s"
  by (simp add: building_def)

lemma startWrite_frame_inv: "frame_inv r s \<Longrightarrow> frame_inv r (startWrite s)"
  by (simp add: frame_inv_def startWrite_def header_ok_def PRIMO_NRF24L01_MAX_PACKET_SIZE_def)

lemma loop_frame_inv: "frame_inv r s \<Longrightarrow> frame_inv r (loop rd s)"
  unfolding loop_def
  by (rule startWrite_frame_inv, rule startWrite_frame_inv, rule building_frame_inv,
      rule build_packet_building)

lemma checkRadio_frame_inv: "frame_inv r s \<Longrightarrow> frame_inv r (checkRadio ev s)"
  by (simp add: frame_inv_def checkRadio_def Let_def)

lemma step_frame_inv: "frame_inv r s \<Longrightarrow> frame_inv r (step e s)"
  by (cases e) (simp_all add: loop_frame_inv checkRadio_frame_inv)

lemma run_frame_inv: "frame_inv r s \<Longrightarrow> frame_inv r (run evs s)"
  unfolding run_def by (rule fold_invariant) (rule step_frame_inv)

lemma setup_primo_frame_inv: "frame_inv r (setup_primo r)"
  by (simp add: frame_inv_def setup_primo_def initialise_packet_def power_on_def header_ok_def
      memcpy4_def le_bytes_list test_pattern_def valid_commands
      PRIMO_NRF24L01_MAX_PACKET_SIZE_def)

lemma reachable_frame_inv: "frame_inv r (run evs (setup_primo r))"
  by (rule run_frame_inv) (rule setup_primo_frame_inv)

lemma header_ok_wire_format:
  assumes "header_ok r f"
  shows "wire_format r f"
proof -
  have t8: "take 8 f = le_bytes PRIMO_ID @ le_bytes r" and len: "length f = 32"
    using assms by (simp_all add: header_ok_def)
  have "take 4 f = take 4 (take 8 f)" by simp
  also have "\<dots> = le_bytes PRIMO_ID" unfolding t8 by (simp add: le_bytes_list)
  finally have a: "take 4 f = le_bytes PRIMO_ID" .
  have "take 4 (drop 4 f) = drop 4 (take 8 f)" by (simp add: drop_take)
  also have "\<dots> = le_bytes r" unfolding t8 by (simp add: le_bytes_list)
  finally have b: "take 4 (drop 4 f) = le_bytes r" .
  have "le_word (le_bytes PRIMO_ID) = 0xDE1D8758"
    by (simp add: le_word_le_bytes PRIMO_ID_def)
  then show ?thesis
    using assms by (simp add: wire_format_def header_ok_def a b le_word_le_bytes)
qed

lemma header_ok_fields:
  assumes "header_ok r f"
  shows "take 4 f = le_bytes PRIMO_ID" and "take 4 (drop 4 f) = le_bytes r"
proof -
  have t8: "take 8 f = le_bytes PRIMO_ID @ le_bytes r"
    using assms by (simp add: header_ok_def)
  have "take 4 f = take 4 (take 8 f)" by simp
  also have "\<dots> = le_bytes PRIMO_ID" unfolding t8 by (simp add: le_bytes_list)
  finally show "take 4 f = le_bytes PRIMO_ID" .
  have "take 4 (drop 4 f) = drop 4 (take 8 f)" by (simp add: drop_take)
  also have "\<dots> = le_bytes r" unfolding t8 by (simp add: le_bytes_list)
  finally show "take 4 (drop 4 f) = le_bytes r" .
qed

lemma sent_header_ok:
  assumes "\<not> overrun (run evs (setup_primo r))"
    and "f \<in> set (sent (run evs (setup_primo r)))"
  shows "header_ok r f"
  using reachable_frame_inv [of r evs] assms by (simp add: frame_inv_def list_all_iff)

lemma build_packet_length:
  assumes "s = run evs (setup_primo r)"
  shows "length (packet (build_packet rd s)) = 32"
proof -
  have "frame_inv r s" unfolding assms by (rule reachable_frame_inv)
  then have "building r (build_packet rd s)" by (rule build_packet_building)
  then show ?thesis by (simp add: building_def frame_inv_def)
qed

subsection \<open>Sequences of stores\<close>

lemma store_reads: "store v (s\<lparr>reads := k\<rparr>) = (store v s)\<lparr>reads := k\<rparr>"
  by (simp add: store_def)

lemma fold_store_reads: "fold store vs (s\<lparr>reads := k\<rparr>) = (fold store vs s)\<lparr>reads := k\<rparr>"
  by (rule fold_commute) (rule store_reads)

lemma reads_fold_store: "reads (fold store vs s) = reads s"
  by (induction vs arbitrary: s) (simp_all add: store_def)

lemma terminated_fold_store: "terminated (fold store vs s) = terminated s"
  by (induction vs arbitrary: s) (simp_all add: store_def)

lemma sent_fold_store: "sent (fold store vs s) = sent s"
  by (induction vs arbitrary: s) (simp_all add: store_def)

lemma overrun_fold_store:
  assumes "current_element s + length vs \<le> PRIMO_NRF24L01_MAX_PACKET_SIZE"
  shows "overrun (fold store vs s) = overrun s"
  using assms
proof (induction vs arbitrary: s)
  case Nil
  then show ?case by simp
next
  case (Cons v vs)
  have "overrun (store v s) = overrun s" "current_element (store v s) = Suc (current_element s)"
    using Cons.prems by (simp_all add: store_def)
  then show ?case
    using Cons.IH [of "store v s"] Cons.prems by simp
qed

lemma current_element_fold_store:
  "current_element (fold store vs s) = current_element s + length vs"
  by (induction vs arbitrary: s) (simp_all add: store_def)

lemma stores_fold_store:
  "stores (fold store vs s) =
    stores s @ zip [current_element s ..< current_element s + length vs] vs"
proof (induction vs arbitrary: s)
  case Nil
  then show ?case by simp
next
  case (Cons v vs)
  let ?i = "current_element s"
  have st: "stores (store v s) = stores s @ [(?i, v)]" "current_element (store v s) = Suc ?i"
    by (simp_all add: store_def)
  have up: "[?i ..< ?i + Suc (length vs)] = ?i # [Suc ?i ..< ?i + Suc (length vs)]"
    by (rule upt_conv_Cons) simp
  have "stores (fold store (v # vs) s) = stores (fold store vs (store v s))"
    by simp
  also have "\<dots> = (stores s @ [(?i, v)]) @ zip [Suc ?i ..< Suc ?i + length vs] vs"
    unfolding Cons.IH [of "store v s"] st ..
  also have "\<dots> = stores s @ zip [?i ..< ?i + length (v # vs)] (v # vs)"
    using up by simp
  finally show ?case .
qed

lemma packet_fold_store:
  assumes "current_element s + length vs \<le> length (packet s)"
    and "length (packet s) = PRIMO_NRF24L01_MAX_PACKET_SIZE"
  shows "packet (fold store vs s) =
    take (current_element s) (packet s) @ vs
      @ drop (current_element s + length vs) (packet s)"
  using assms
proof (induction vs arbitrary: s)
  case Nil
  then show ?case by simp
next
  case (Cons v vs)
  let ?i = "current_element s"
  have i: "?i < length (packet s)" using Cons.prems by simp
  have st: "packet (store v s) = (packet s)[?i := v]" "current_element (store v s) = Suc ?i"
    using i Cons.prems(2) by (simp_all add: store_def)
  have "packet (fold store vs (store v s)) =
      take (Suc ?i) ((packet s)[?i := v]) @ vs @ drop (Suc ?i + length vs) ((packet s)[?i := v])"
    using Cons.IH [of "store v s"] Cons.prems by (simp add: st)
  moreover have "take (Suc ?i) ((packet s)[?i := v]) = take ?i (packet s) @ [v]"
    using i by (simp add: take_Suc_conv_app_nth)
  moreover have "drop (Suc ?i + length vs) ((packet s)[?i := v]) =
      drop (Suc ?i + length vs) (packet s)"
    by simp
  ultimately show ?case by simp
qed

subsection \<open>The function loop\<close>

lemma function_step_stores:
  assumes "fe \<in> {1, 2, 3, 4}"
  shows "function_step rd fe s =
    fold store (motion (button_value rd (reads s) (12 + fe))) (s\<lparr>reads := reads s + 1\<rparr>)"
proof -
  have "hall_wiring (12 + fe) \<noteq> None"
    using assms by (auto simp: hall_wiring_def)
  then show ?thesis
    by (auto simp: function_step_def check_button_def motion_def split: magnet.splits)
qed

lemma function_loop_stores:
  "function_loop rd s =
    fold store (expansion (aux_decodes rd (reads s))) (s\<lparr>reads := reads s + 4\<rparr>)"
proof -
  have l: "[1 ..< 5] = [1, 2, 3, Suc 3]" by (simp add: upt_rec)
  show ?thesis
    unfolding function_loop_def l
    by (simp add: function_step_stores fold_store_reads reads_fold_store expansion_def
        aux_decodes_def upt_rec numeral_Bit0 numeral_Bit1)
qed

lemma function_needs_wiring:
  assumes "button_value rd t b = PRIMO_MAGNET_FUNCTION"
  shows "hall_wiring b \<noteq> None"
proof
  assume "hall_wiring b = None"
  then have "button_value rd t b = PRIMO_MAGNET_NONE"
    by (simp add: button_value_def invert_magnet_def hall_code_def convert_def)
  with assms show False by simp
qed

lemma button_step_function:
  assumes "\<not> terminated s" and "button_value rd (reads s) b = PRIMO_MAGNET_FUNCTION"
  shows "button_step rd b s =
    fold store (expansion (aux_decodes rd (reads s + 1))) (s\<lparr>reads := reads s + 5\<rparr>)"
proof -
  have "hall_wiring b \<noteq> None"
    using assms(2) by (rule function_needs_wiring)
  then have "button_step rd b s = function_loop rd (s\<lparr>reads := reads s + 1\<rparr>)"
    using assms by (auto simp: button_step_def check_button_def)
  then show ?thesis
    by (simp add: function_loop_stores ac_simps)
qed

lemma aux_decodes_list:
  "aux_decodes rd t =
    [button_value rd t 13, button_value rd (t + 1) 14, button_value rd (t + 2) 15,
     button_value rd (t + 3) 16]"
proof -
  have l: "[0 ..< 4] = [0, 1, 2, 3 :: nat]" by (simp add: upt_rec)
  have n: "13 + 1 = (14 :: nat)" "13 + 2 = (15 :: nat)" "13 + 3 = (16 :: nat)" by simp_all
  show ?thesis unfolding aux_decodes_def l by (simp only: list.map n add_0_right)
qed

subsection \<open>Building sends nothing\<close>

lemma sent_store: "sent (store v s) = sent s"
  by (simp add: store_def)

lemma sent_check_button: "sent (snd (check_button rd b s)) = sent s"
  by (simp add: check_button_def split: option.splits)

lemma sent_function_step: "sent s = k \<Longrightarrow> sent (function_step rd fe s) = k"
  using sent_check_button [of rd "12 + fe" s]
  by (auto simp: function_step_def sent_store split: prod.splits magnet.splits)

lemma sent_function_loop: "sent s = k \<Longrightarrow> sent (function_loop rd s) = k"
  unfolding function_loop_def by (rule fold_invariant) (rule sent_function_step)

lemma sent_button_step: "sent s = k \<Longrightarrow> sent (button_step rd b s) = k"
  using sent_check_button [of rd b s]
  by (auto simp: button_step_def sent_store sent_function_loop
      split: prod.splits magnet.splits)

lemma sent_button_loop: "sent s = k \<Longrightarrow> sent (button_loop rd s) = k"
  unfolding button_loop_def by (rule fold_invariant) (rule sent_button_step)

lemma sent_pad_stops: "sent (pad_stops s) = sent s"
proof (induction s rule: pad_stops.induct)
  case (1 s)
  show ?case
  proof (cases "current_element s < PRIMO_MAX_BUTTON")
    case True
    then show ?thesis
      using "1.IH" [OF True] by (simp add: pad_stops.simps [of s] sent_store)
  next
    case False
    then show ?thesis by (simp add: pad_stops.simps [of s])
  qed
qed

lemma sent_build_packet: "sent (build_packet rd s) = sent s"
  by (simp add: build_packet_def sent_pad_stops sent_button_loop)

subsection \<open>Evaluation on concrete inputs\<close>

lemma buttons_list:
  "[1 ..< Suc PRIMO_MAX_BUTTON] =
    [1, 2, 3, 4, 5, 6, 7, 8, 9, 10, 11, 12, 13, 14, 15, 16, 17, 18, 19, 20, 21, 22, 23, 24,
     25, 26, 27, 28]"
  by (simp add: PRIMO_MAX_BUTTON_def upt_rec)

lemma function_list: "[1 ..< 5] = [1, 2, 3, 4 :: nat]"
  by (simp add: upt_rec)

lemma setup_primo_0:
  "setup_primo 0 =
    \<lparr>packet = [0x58, 0x87, 0x1D, 0xDE, 0, 0, 0, 0, 1, 2, 1, 2, 1, 2, 1, 3, 1, 3, 1, 3, 1, 3,
       1, 2, 0, 0, 0, 0, 0, 0, 0, 0],
     primo_random = 0, ackMessageCount = 0, current_element = 0, terminated = False,
     reads = 0, stores = [], sent = [], power_downs = 0, overrun = False\<rparr>"
  by (simp add: setup_primo_def initialise_packet_def power_on_def memcpy4_def le_bytes_list
      PRIMO_ID_def test_pattern_def PRIMO_NRF24L01_MAX_PACKET_SIZE_def
      PRIMO_COMMAND_STOP_def PRIMO_COMMAND_FORWARD_def PRIMO_COMMAND_LEFT_def
      PRIMO_COMMAND_RIGHT_def)

lemma list_update_Cons_numeral:
  "(x # xs)[numeral v := y] = x # xs[numeral v - 1 := y]"
  by (simp add: numeral_eq_Suc)

lemma replicate_numeral_Cons:
  "replicate (numeral v) x = x # replicate (numeral v - 1) x"
  by (simp add: numeral_eq_Suc)

lemma function_loop_unrolled:
  "function_loop rd s =
    function_step rd 4 (function_step rd 3 (function_step rd 2 (function_step rd 1 s)))"
  unfolding function_loop_def function_list by simp

lemmas eval_simps = list_update_Cons_numeral
  button_step_def function_loop_unrolled function_step_def check_button_def store_def
  button_value_def hall_code_def hall_wiring_def invert_magnet_def convert_def nibble_def
  untwist_def ports_def
  PRIMO_NRF24L01_MAX_PACKET_SIZE_def PRIMO_MAX_BUTTON_def
  PRIMO_COMMAND_STOP_def PRIMO_COMMAND_FORWARD_def PRIMO_COMMAND_LEFT_def
  PRIMO_COMMAND_RIGHT_def

lemma button_loop_unrolled:
  "button_loop rd s =
    fold (button_step rd)
      [1, 2, 3, 4, 5, 6, 7, 8, 9, 10, 11, 12, 13, 14, 15, 16, 17, 18, 19, 20, 21, 22, 23, 24,
       25, 26, 27, 28] s"
  by (simp only: button_loop_def buttons_list)

lemmas loop_simps = run_def loop_def build_packet_def button_loop_unrolled startWrite_def
  pad_stops.simps

subsection \<open>The range of current\_element\<close>

lemma current_element_store: "current_element (store v s) = Suc (current_element s)"
  by (simp add: store_def)

lemma current_element_check_button:
  "current_element (snd (check_button rd b s)) = current_element s"
  by (simp add: check_button_def split: option.splits)

lemma length_motion: "length (motion m) \<le> 1"
  by (cases m) (simp_all add: motion_def)

lemma length_expansion: "length (expansion ms) \<le> length ms"
proof (induction ms)
  case Nil
  then show ?case by (simp add: expansion_def)
next
  case (Cons m ms)
  then show ?case
    using length_motion [of m] by (simp add: expansion_def)
qed

lemma current_element_function_loop:
  "current_element (function_loop rd s) \<le> current_element s + 4"
  using length_expansion [of "aux_decodes rd (reads s)"]
  by (simp add: function_loop_stores current_element_fold_store aux_decodes_def)

lemma current_element_button_step:
  "current_element (button_step rd b s) \<le> current_element s + 4"
  using current_element_check_button [of rd b s]
    current_element_function_loop [of rd "snd (check_button rd b s)"]
  by (auto simp: button_step_def current_element_store split: prod.splits magnet.splits)

lemma current_element_fold_button_step:
  "current_element (fold (button_step rd) bs s) \<le> current_element s + 4 * length bs"
proof (induction bs arbitrary: s)
  case Nil
  then show ?case by simp
next
  case (Cons b bs)
  have "current_element (fold (button_step rd) bs (button_step rd b s))
      \<le> current_element (button_step rd b s) + 4 * length bs"
    by (rule Cons.IH)
  then show ?case
    using current_element_button_step [of rd b s] by simp
qed

lemma current_element_pad_stops:
  "current_element (pad_stops s) = max (current_element s) PRIMO_MAX_BUTTON"
proof (induction s rule: pad_stops.induct)
  case (1 s)
  show ?case
  proof (cases "current_element s < PRIMO_MAX_BUTTON")
    case True
    then show ?thesis
      using "1.IH" [OF True]
      by (simp add: pad_stops.simps [of s] current_element_store)
  next
    case False
    then show ?thesis by (simp add: pad_stops.simps [of s])
  qed
qed

lemma current_element_fits_char:
  "current_element (build_packet rd s) \<le> 120"
proof -
  let ?s0 = "s\<lparr>current_element := 8, terminated := False, reads := reads s + 4\<rparr>"
  have "current_element (button_loop rd ?s0) \<le> current_element ?s0 + 4 * 28"
    unfolding button_loop_def
    using current_element_fold_button_step [of rd "[1 ..< Suc PRIMO_MAX_BUTTON]" ?s0]
    by (simp add: PRIMO_MAX_BUTTON_def)
  then show ?thesis
    by (simp add: build_packet_def current_element_pad_stops PRIMO_MAX_BUTTON_def)
qed

subsection \<open>Two evaluated runs\<close>

lemma stale_tail_sent:
  "sent (run [Gesture (ports 0x2222 0x0022 0 0x3333), Gesture (ports 0x2222 0x2222 0x2222 0)]
      (setup_primo 0)) =
   [le_bytes PRIMO_ID @ le_bytes 0 @ replicate 24 1,
    le_bytes PRIMO_ID @ le_bytes 0 @ replicate 24 1,
    le_bytes PRIMO_ID @ le_bytes 0 @ replicate 20 0 @ replicate 4 1,
    le_bytes PRIMO_ID @ le_bytes 0 @ replicate 20 0 @ replicate 4 1]"
  unfolding setup_primo_0
  by (simp add: loop_simps eval_simps replicate_numeral_Cons le_bytes_list PRIMO_ID_def)

lemma seven_functions_stores:
  "stores (loop (ports 0x2222 0x0222 0 0x3333) (setup_primo 0)) =
    [(8, 1), (9, 1), (10, 1), (11, 1), (12, 1), (13, 1), (14, 1), (15, 1),
     (16, 1), (17, 1), (18, 1), (19, 1), (20, 1), (21, 1), (22, 1), (23, 1),
     (24, 1), (25, 1), (26, 1), (27, 1), (28, 1), (29, 1), (30, 1), (31, 1),
     (32, 1), (33, 1), (34, 1), (35, 1), (36, 0), (37, 0), (38, 0), (39, 0),
     (40, 0), (41, 0), (42, 0), (43, 0), (44, 0), (45, 0), (46, 0), (47, 0),
     (48, 0), (49, 0), (50, 0), (51, 0), (52, 0), (53, 0), (54, 0), (55, 0)]"
  unfolding setup_primo_0
  by (simp add: loop_simps eval_simps)

subsection \<open>Frames of a run that stays inside the array\<close>

lemma frames_inside_array:
  assumes "\<not> overrun (run evs (setup_primo r))"
    and "f \<in> set (sent (run evs (setup_primo r)))"
  shows "wire_format r f
    \<and> length f = 32
    \<and> take 4 f = [0x58, 0x87, 0x1D, 0xDE]
    \<and> take 4 (drop 4 f) =
        [ucast r, ucast (drop_bit 8 r), ucast (drop_bit 16 r), ucast (drop_bit 24 r)]
    \<and> length (drop 8 f) = 24
    \<and> list_all valid_command (drop 8 f)"
proof -
  have h: "header_ok r f" using assms by (rule sent_header_ok)
  then have w: "wire_format r f" by (rule header_ok_wire_format)
  have len: "length f = 32" using h by (simp add: header_ok_def)
  have tag: "take 4 f = [0x58, 0x87, 0x1D, 0xDE]"
    using header_ok_fields(1) [OF h] by (simp add: le_bytes_PRIMO_ID)
  have ident: "take 4 (drop 4 f) =
        [ucast r, ucast (drop_bit 8 r), ucast (drop_bit 16 r), ucast (drop_bit 24 r)]"
    using header_ok_fields(2) [OF h] by (simp add: le_bytes_list)
  have cmds: "list_all valid_command (drop 8 f)"
    using h by (simp add: header_ok_def)
  show ?thesis using w len tag ident cmds by simp
qed

lemma inside_array_example:
  "overrun (run [Gesture (ports 0x2222 0 0 0)] (setup_primo 0)) = False"
  "sent (run [Gesture (ports 0x2222 0 0 0)] (setup_primo 0)) =
    [le_bytes PRIMO_ID @ le_bytes 0 @ replicate 24 0,
     le_bytes PRIMO_ID @ le_bytes 0 @ replicate 24 0]"
  unfolding setup_primo_0
  by (simp_all add: loop_simps eval_simps replicate_numeral_Cons le_bytes_list PRIMO_ID_def)

section \<open>The claims\<close>


text \<open>
  C2, at a failing input. First gesture: slots 1 to 6 hold Function, slot 7 is empty, the
  four function slots hold Forward. Second gesture: slots 1 to 12 hold Function and the
  function slots are empty. The second gesture stores Stop up to index 27 only (the
  padding loop ends at \<open>PRIMO_MAX_BUTTON\<close>), so bytes 28 to 31 keep the Forward of the
  first gesture: the frame sent has 20 Stops followed by 4 Forwards.
\<close>

theorem stale_tail_gap:
  "drop 8 (last (sent (run [Gesture (ports 0x2222 0x0022 0 0x3333),
      Gesture (ports 0x2222 0x2222 0x2222 0)] (setup_primo 0)))) =
     replicate 20 PRIMO_COMMAND_STOP @ replicate 4 PRIMO_COMMAND_FORWARD
   \<and> no_gap (drop 8 (last (sent (run [Gesture (ports 0x2222 0x0022 0 0x3333),
      Gesture (ports 0x2222 0x2222 0x2222 0)] (setup_primo 0))))) = False"
  unfolding stale_tail_sent by code_simp

text \<open>
  C3, at a failing input. Slots 1 to 7 hold Function, slot 8 is empty, the four function
  slots hold Forward. The builder stores 28 Forward commands at indices 8 to 35 and then
  20 Stops at indices 36 to 55: nothing is truncated at 24 commands, and the stores go on
  behind the 32-byte packet.
\<close>

theorem seven_functions_overflow:
  "map fst (stores (loop (ports 0x2222 0x0222 0 0x3333) (setup_primo 0))) = [8 ..< 56]
   \<and> map snd (stores (loop (ports 0x2222 0x0222 0 0x3333) (setup_primo 0))) =
       replicate 28 PRIMO_COMMAND_FORWARD @ replicate 20 PRIMO_COMMAND_STOP"
  unfolding seven_functions_stores by code_simp

text \<open>
  C4, at a failing input. Slots 1 to 12 hold Forward, function slot 13 holds Left, slots
  14 to 16 are empty. No slot decodes Function, yet the Left of slot 13 is in the frame
  as the 13th command: the scan runs over buttons 1 to \<open>PRIMO_MAX_BUTTON\<close> and so
  decodes slot 13 as one more slot of the sequence. With slot 13 empty and the same
  slots 1 to 12, the 13th command is Stop.
\<close>

theorem function_row_scanned_as_sequence:
  "map (button_value (ports 0x3333 0x6666 0x3333 0x0005) 0) [1 ..< 17] =
     replicate 12 PRIMO_MAGNET_FORWARD @ [PRIMO_MAGNET_LEFT] @ replicate 3 PRIMO_MAGNET_NONE
   \<and> drop 8 (packet (loop (ports 0x3333 0x6666 0x3333 0x0005) (setup_primo 0))) =
     replicate 12 PRIMO_COMMAND_FORWARD @ [PRIMO_COMMAND_LEFT]
       @ replicate 11 PRIMO_COMMAND_STOP
   \<and> drop 8 (packet (loop (ports 0x3333 0x6666 0x3333 0) (setup_primo 0))) =
     replicate 12 PRIMO_COMMAND_FORWARD @ replicate 12 PRIMO_COMMAND_STOP"
  by code_simp

text \<open>
  C5. For every corrected sensor code, \<open>check_button\<close> decodes by the tables of the
  specification: a slot that is not inverted maps 0 to None, 2 to Function, 3 to Forward,
  4 to None, 5 to Left, 6 to Right, 7 to None and everything else to None; an inverted
  slot (buttons 5 to 8) maps 2 to Function, 3 to Right, 4 to Function, 5 to Left,
  6 to Forward, 7 to None and everything else to None. The code that reaches the tables
  is always a 3-bit value. Codes 0, 1, 7 and every code outside 2..6 give None.
\<close>

theorem check_button_decode_tables:
  "convert im c = spec_decode im c
   \<and> button_value rd t b = spec_decode (invert_magnet b) (hall_code rd t b)
   \<and> fst (check_button rd b s) = spec_decode (invert_magnet b) (hall_code rd (reads s) b)
   \<and> hall_code rd t b AND 7 = hall_code rd t b
   \<and> (invert_magnet b \<longleftrightarrow> b \<in> {5, 6, 7, 8})
   \<and> map (convert False) [0, 1, 2, 3, 4, 5, 6, 7] =
       [PRIMO_MAGNET_NONE, PRIMO_MAGNET_NONE, PRIMO_MAGNET_FUNCTION, PRIMO_MAGNET_FORWARD,
        PRIMO_MAGNET_NONE, PRIMO_MAGNET_LEFT, PRIMO_MAGNET_RIGHT, PRIMO_MAGNET_NONE]
   \<and> map (convert True) [0, 1, 2, 3, 4, 5, 6, 7] =
       [PRIMO_MAGNET_NONE, PRIMO_MAGNET_NONE, PRIMO_MAGNET_FUNCTION, PRIMO_MAGNET_RIGHT,
        PRIMO_MAGNET_FUNCTION, PRIMO_MAGNET_LEFT, PRIMO_MAGNET_FORWARD, PRIMO_MAGNET_NONE]
   \<and> (c \<notin> {2, 3, 4, 5, 6} \<longrightarrow> convert im c = PRIMO_MAGNET_NONE)"
proof -
  have tables: "map (convert False) [0, 1, 2, 3, 4, 5, 6, 7] =
       [PRIMO_MAGNET_NONE, PRIMO_MAGNET_NONE, PRIMO_MAGNET_FUNCTION, PRIMO_MAGNET_FORWARD,
        PRIMO_MAGNET_NONE, PRIMO_MAGNET_LEFT, PRIMO_MAGNET_RIGHT, PRIMO_MAGNET_NONE]"
    "map (convert True) [0, 1, 2, 3, 4, 5, 6, 7] =
       [PRIMO_MAGNET_NONE, PRIMO_MAGNET_NONE, PRIMO_MAGNET_FUNCTION, PRIMO_MAGNET_RIGHT,
        PRIMO_MAGNET_FUNCTION, PRIMO_MAGNET_LEFT, PRIMO_MAGNET_FORWARD, PRIMO_MAGNET_NONE]"
    by (simp_all add: convert_def)
  have other: "c \<notin> {2, 3, 4, 5, 6} \<longrightarrow> convert im c = PRIMO_MAGNET_NONE"
    by (simp add: convert_def)
  have bv: "button_value rd t b = spec_decode (invert_magnet b) (hall_code rd t b)" for t
    by (simp add: button_value_def convert_table)
  have cb: "fst (check_button rd b s) = spec_decode (invert_magnet b) (hall_code rd (reads s) b)"
    by (simp add: check_button_def bv)
  show ?thesis
    using tables other bv cb convert_table [of im c] hall_code_three_bit [of rd t b]
      invert_magnet_iff [of b]
    by blast
qed

theorem check_button_decode_tables_witness:
  "(1 :: 8 word) \<notin> {2, 3, 4, 5, 6} \<and> convert True 1 = PRIMO_MAGNET_NONE
   \<and> button_value (ports 0 0x6000 0 0) 0 8 = PRIMO_MAGNET_FORWARD
   \<and> spec_decode True (hall_code (ports 0 0x6000 0 0) 0 8) = PRIMO_MAGNET_FORWARD"
  using check_button_decode_tables [of True 1 "ports 0 0x6000 0 0" 0 8]
  by (simp add: spec_decode_def inverted_table_def hall_code_def hall_wiring_def
      nibble_def untwist_def ports_def invert_magnet_def)

text \<open>
  C6. On the masked 3-bit code, the correction for a twisted sensor keeps bit 0, puts
  input bit 2 into bit 1 and input bit 1 into bit 2, gives a 3-bit code again, and
  applied twice gives the code back. Button 8 is the twisted one, and its code is the
  correction of the masked top nibble of expander 2.
\<close>

theorem untwist_permutation:
  fixes b :: "8 word"
  shows "bit (untwist (b AND 7)) 0 = bit b 0
   \<and> bit (untwist (b AND 7)) 1 = bit b 2
   \<and> bit (untwist (b AND 7)) 2 = bit b 1
   \<and> untwist (b AND 7) AND 7 = untwist (b AND 7)
   \<and> untwist (untwist (b AND 7)) = b AND 7
   \<and> twisted n = (n = 8)
   \<and> hall_code rd t 8 = untwist (nibble 12 (rd 2 t) AND 7)"
proof -
  have "bit (untwist (b AND 7)) 0 = bit (b AND 7) 0
    \<and> bit (untwist (b AND 7)) 1 = bit (b AND 7) 2
    \<and> bit (untwist (b AND 7)) 2 = bit (b AND 7) 1"
    by (rule untwist_bits) (rule three_bit_cases)
  then have bits: "bit (untwist (b AND 7)) 0 = bit b 0
    \<and> bit (untwist (b AND 7)) 1 = bit b 2
    \<and> bit (untwist (b AND 7)) 2 = bit b 1"
    by (simp only: bits_and7)
  have code8: "hall_code rd t 8 = untwist (nibble 12 (rd 2 t) AND 7)"
    by (simp add: hall_code_def hall_wiring_def)
  show ?thesis
    using bits untwist_three_bit [of b] untwist_involution [of b] twisted_iff [of n] code8
    by blast
qed

theorem untwist_permutation_witness:
  "untwist (0x0D AND 7) = 3 \<and> untwist (untwist (0x0D AND 7)) = 0x0D AND 7
   \<and> bit (untwist (0x0D AND 7)) 1 = bit (0x0D :: 8 word) 2"
  using untwist_permutation [of "0x0D" 8 "ports 0 0 0 0" 0]
  by (simp add: untwist_def)

text \<open>
  C7. When a slot decodes as Function while the scan is not terminated, the builder reads
  buttons 13, 14, 15 and 16 in this order. As long as the commands fit into the packet,
  it stores one command for each of the four that decodes Forward, Left or Right, in
  this order and at consecutive positions, and nothing for any other decode; it does
  not terminate the scan and does not leave the array. The decodes Forward, None, Left,
  Right expand to Forward, Left, Right.
\<close>

theorem function_expansion:
  assumes "\<not> terminated s"
    and "button_value rd (reads s) b = PRIMO_MAGNET_FUNCTION"
    and "cs = expansion (aux_decodes rd (reads s + 1))"
  shows "(current_element s + length cs \<le> 32 \<longrightarrow>
        stores (button_step rd b s) =
          stores s @ zip [current_element s ..< current_element s + length cs] cs
      \<and> current_element (button_step rd b s) = current_element s + length cs
      \<and> reads (button_step rd b s) = reads s + 5
      \<and> \<not> terminated (button_step rd b s)
      \<and> overrun (button_step rd b s) = overrun s
      \<and> (length (packet s) = 32 \<longrightarrow>
          packet (button_step rd b s) =
            take (current_element s) (packet s) @ cs
              @ drop (current_element s + length cs) (packet s)))
    \<and> aux_decodes rd t =
        [button_value rd t 13, button_value rd (t + 1) 14, button_value rd (t + 2) 15,
         button_value rd (t + 3) 16]
    \<and> expansion [PRIMO_MAGNET_FORWARD, PRIMO_MAGNET_NONE, PRIMO_MAGNET_LEFT,
         PRIMO_MAGNET_RIGHT] =
        [PRIMO_COMMAND_FORWARD, PRIMO_COMMAND_LEFT, PRIMO_COMMAND_RIGHT]
    \<and> expansion [m1, m2, m3, m4] = motion m1 @ motion m2 @ motion m3 @ motion m4
    \<and> map motion [PRIMO_MAGNET_NONE, PRIMO_MAGNET_FORWARD, PRIMO_MAGNET_RIGHT,
         PRIMO_MAGNET_LEFT, PRIMO_MAGNET_FUNCTION, PRIMO_MAGNET_ERR] =
        [[], [PRIMO_COMMAND_FORWARD], [PRIMO_COMMAND_RIGHT], [PRIMO_COMMAND_LEFT], [], []]"
proof -
  let ?s' = "s\<lparr>reads := reads s + 5\<rparr>"
  have eq: "button_step rd b s = fold store cs ?s'"
    unfolding assms(3) using assms(1,2) by (rule button_step_function)
  have a: "stores (button_step rd b s) =
      stores s @ zip [current_element s ..< current_element s + length cs] cs"
    unfolding eq by (simp add: stores_fold_store)
  have b: "current_element (button_step rd b s) = current_element s + length cs"
    unfolding eq by (simp add: current_element_fold_store)
  have c: "reads (button_step rd b s) = reads s + 5"
    unfolding eq by (simp add: reads_fold_store)
  have d: "\<not> terminated (button_step rd b s)"
    unfolding eq using assms(1) by (simp add: terminated_fold_store)
  have o: "current_element s + length cs \<le> 32 \<longrightarrow>
      overrun (button_step rd b s) = overrun s"
    unfolding eq using overrun_fold_store [of ?s' cs]
    by (simp add: PRIMO_NRF24L01_MAX_PACKET_SIZE_def)
  have e: "current_element s + length cs \<le> 32 \<longrightarrow> length (packet s) = 32 \<longrightarrow>
        packet (button_step rd b s) =
          take (current_element s) (packet s) @ cs
            @ drop (current_element s + length cs) (packet s)"
    unfolding eq
    using packet_fold_store [of ?s' cs]
    by (simp add: PRIMO_NRF24L01_MAX_PACKET_SIZE_def)
  have f: "expansion [PRIMO_MAGNET_FORWARD, PRIMO_MAGNET_NONE, PRIMO_MAGNET_LEFT,
         PRIMO_MAGNET_RIGHT] =
        [PRIMO_COMMAND_FORWARD, PRIMO_COMMAND_LEFT, PRIMO_COMMAND_RIGHT]"
    "expansion [m1, m2, m3, m4] = motion m1 @ motion m2 @ motion m3 @ motion m4"
    "map motion [PRIMO_MAGNET_NONE, PRIMO_MAGNET_FORWARD, PRIMO_MAGNET_RIGHT,
         PRIMO_MAGNET_LEFT, PRIMO_MAGNET_FUNCTION, PRIMO_MAGNET_ERR] =
        [[], [PRIMO_COMMAND_FORWARD], [PRIMO_COMMAND_RIGHT], [PRIMO_COMMAND_LEFT], [], []]"
    by (simp_all add: expansion_def motion_def)
  show ?thesis
    using a b c d o e f aux_decodes_list [of rd t] by blast
qed

theorem function_expansion_witness:
  "\<not> terminated (setup_primo 0\<lparr>current_element := 8\<rparr>)
   \<and> button_value (ports 0x0002 0 0 0x6503) (reads (setup_primo 0\<lparr>current_element := 8\<rparr>)) 1
       = PRIMO_MAGNET_FUNCTION
   \<and> aux_decodes (ports 0x0002 0 0 0x6503) 1 =
       [PRIMO_MAGNET_FORWARD, PRIMO_MAGNET_NONE, PRIMO_MAGNET_LEFT, PRIMO_MAGNET_RIGHT]
   \<and> stores (button_step (ports 0x0002 0 0 0x6503) 1 (setup_primo 0\<lparr>current_element := 8\<rparr>))
       = [(8, PRIMO_COMMAND_FORWARD), (9, PRIMO_COMMAND_LEFT), (10, PRIMO_COMMAND_RIGHT)]
   \<and> current_element
        (button_step (ports 0x0002 0 0 0x6503) 1 (setup_primo 0\<lparr>current_element := 8\<rparr>)) = 11
   \<and> overrun (button_step (ports 0x0002 0 0 0x6503) 1 (setup_primo 0\<lparr>current_element := 8\<rparr>))
       = False"
proof -
  let ?rd = "ports 0x0002 0 0 0x6503"
  let ?s = "setup_primo 0\<lparr>current_element := 8\<rparr>"
  have h1: "\<not> terminated ?s" by (simp add: setup_primo_0)
  have rs: "reads ?s = 0" by (simp add: setup_primo_0)
  have h2: "button_value ?rd (reads ?s) 1 = PRIMO_MAGNET_FUNCTION"
    unfolding rs by code_simp
  have au: "aux_decodes ?rd 1 =
       [PRIMO_MAGNET_FORWARD, PRIMO_MAGNET_NONE, PRIMO_MAGNET_LEFT, PRIMO_MAGNET_RIGHT]"
    by code_simp
  have st: "stores ?s = []" "current_element ?s = 8" "overrun ?s = False"
    by (simp_all add: setup_primo_0)
  have up: "[8 ..< 11] = [8, 9, 10 :: nat]" by code_simp
  show ?thesis
    using function_expansion [OF h1 h2 refl, of 1 PRIMO_MAGNET_NONE PRIMO_MAGNET_NONE
        PRIMO_MAGNET_NONE PRIMO_MAGNET_NONE] h1 h2 au
    by (simp add: rs st up)
qed

text \<open>
  C8, at a failing input. With every slot empty, button 1 terminates the scan and each
  of the buttons 2 to 28 stores one Stop: 27 stores at indices 8 to 34, the last three
  behind the 32-byte packet.
\<close>

theorem empty_board_stores_past_packet:
  "stores (loop (ports 0 0 0 0) (setup_primo 0)) =
     map (\<lambda>i. (i, PRIMO_COMMAND_STOP)) [8 ..< 35]
   \<and> PRIMO_NRF24L01_MAX_PACKET_SIZE = 32"
  by code_simp

text \<open>
  C9. In every state reached from start-up, a completed gesture hands the radio exactly
  two buffers, one directly after the other; both are the 32 bytes of the packet as the
  pass has left it, and nothing is sent while the packet is built. An interrupt of the
  radio before the gesture changes nothing of what the gesture sends.
\<close>

theorem gesture_sends_twice:
  assumes "s = run evs (setup_primo r)"
  shows "sent (step (Gesture rd) s) =
      sent s @ [packet (build_packet rd s), packet (build_packet rd s)]
    \<and> length (packet (build_packet rd s)) = 32
    \<and> packet (step (Gesture rd) s) = packet (build_packet rd s)
    \<and> sent (build_packet rd s) = sent s
    \<and> sent (step (Gesture rd) (step (Interrupt ev) s)) = sent (step (Gesture rd) s)"
proof -
  have len: "length (packet (build_packet rd s)) = 32"
    using assms by (rule build_packet_length)
  have sb: "sent (build_packet rd s) = sent s"
    by (rule sent_build_packet)
  have a: "sent (step (Gesture rd) s) =
      sent s @ [packet (build_packet rd s), packet (build_packet rd s)]"
    using len sb by (simp add: loop_def startWrite_def PRIMO_NRF24L01_MAX_PACKET_SIZE_def)
  have b: "packet (step (Gesture rd) s) = packet (build_packet rd s)"
    by (simp add: loop_def startWrite_def)
  have d: "sent (step (Gesture rd) (step (Interrupt ev) s)) = sent (step (Gesture rd) s)"
    by (simp add: loop_after_checkRadio)
  show ?thesis using a len b sb d by simp
qed

theorem gesture_sends_twice_witness:
  "sent (step (Gesture (ports 0x2223 0 0 0)) (run [] (setup_primo 0))) =
    [le_bytes PRIMO_ID @ le_bytes 0 @ [1] @ replicate 23 0,
     le_bytes PRIMO_ID @ le_bytes 0 @ [1] @ replicate 23 0]
   \<and> overrun (step (Gesture (ports 0x2223 0 0 0)) (run [] (setup_primo 0))) = False"
proof -
  have p: "packet (build_packet (ports 0x2223 0 0 0) (run [] (setup_primo 0))) =
      le_bytes PRIMO_ID @ le_bytes 0 @ [1] @ replicate 23 0"
    unfolding setup_primo_0
    by (simp add: loop_simps eval_simps replicate_numeral_Cons le_bytes_list PRIMO_ID_def)
  have s: "sent (run [] (setup_primo 0)) = []"
    by (simp add: run_def setup_primo_0)
  have o: "overrun (step (Gesture (ports 0x2223 0 0 0)) (run [] (setup_primo 0))) = False"
    unfolding setup_primo_0 by (simp add: loop_simps eval_simps)
  show ?thesis
    using gesture_sends_twice
      [OF refl, of "ports 0x2223 0 0 0" "[]" 0
        "\<lparr>tx = True, fail = False, rx = False, ack_payload = 0\<rparr>"] o
    by (simp add: p s)
qed

text \<open>
  C10. The interrupt handler calls \<open>radio.powerDown\<close> once if the radio reports
  transmit-ok or transmit-failed and not at all otherwise; if the radio reports received
  data, the acknowledgement counter becomes the payload, otherwise it keeps its value;
  nothing else of the state changes, in particular nothing is sent. What the handler
  wrote does not enter the sending: a gesture after the interrupt sends what it sends
  without the interrupt, from the same packet.
\<close>

theorem checkRadio_effect:
  "checkRadio ev s =
     s\<lparr>power_downs := (if tx ev \<or> fail ev then power_downs s + 1 else power_downs s),
       ackMessageCount := (if rx ev then ack_payload ev else ackMessageCount s)\<rparr>
   \<and> (power_downs (checkRadio ev s) = power_downs s + 1) = (tx ev \<or> fail ev)
   \<and> (power_downs (checkRadio ev s) = power_downs s) = (\<not> (tx ev \<or> fail ev))
   \<and> sent (checkRadio ev s) = sent s
   \<and> packet (checkRadio ev s) = packet s
   \<and> sent (loop rd (checkRadio ev s)) = sent (loop rd s)
   \<and> packet (loop rd (checkRadio ev s)) = packet (loop rd s)"
proof -
  have eq: "checkRadio ev s =
     s\<lparr>power_downs := (if tx ev \<or> fail ev then power_downs s + 1 else power_downs s),
       ackMessageCount := (if rx ev then ack_payload ev else ackMessageCount s)\<rparr>" for s
    by (simp add: checkRadio_def Let_def)
  have pd: "(power_downs (checkRadio ev s) = power_downs s + 1) = (tx ev \<or> fail ev)"
    "(power_downs (checkRadio ev s) = power_downs s) = (\<not> (tx ev \<or> fail ev))"
    by (simp_all add: eq)
  have same: "sent (checkRadio ev s) = sent s" "packet (checkRadio ev s) = packet s" for s
    by (simp_all add: eq)
  show ?thesis
    using eq [of s] pd same [of s] loop_after_checkRadio [of rd ev s] by blast
qed

theorem checkRadio_effect_witness:
  "power_downs (checkRadio \<lparr>tx = True, fail = False, rx = True, ack_payload = 7\<rparr>
      (setup_primo 0)) = 1
   \<and> ackMessageCount (checkRadio \<lparr>tx = True, fail = False, rx = True, ack_payload = 7\<rparr>
      (setup_primo 0)) = 7
   \<and> sent (checkRadio \<lparr>tx = True, fail = False, rx = True, ack_payload = 7\<rparr>
      (setup_primo 0)) = []"
  using checkRadio_effect
    [of "\<lparr>tx = True, fail = False, rx = True, ack_payload = 7\<rparr>" "setup_primo 0"
      "ports 0 0 0 0"]
  by (simp add: setup_primo_def initialise_packet_def power_on_def)

end
